theory Spec2Isabelle
  imports Main "HOL-Library.Word"
begin

section \<open>Data model of BrainFuckInterpreter.cpp\<close>

text \<open>
  The two ways the program can leave its defined behaviour: a failed \<open>assert\<close> (the
  assertions are taken as compiled in, so that a failed one ends the run), and an iterator
  moved and read beyond the end of its container. \<open>std::size_t\<close> is taken as 64 bits wide.
\<close>

datatype error = AssertionFailure | OutOfBounds

text \<open>
  \<open>class Command\<close>: the character \<open>command_\<close> and the repeat count \<open>count_\<close>. The count is
  a \<open>std::size_t\<close>; it is a natural number here, since it never exceeds the number of
  characters of the source text.
\<close>

datatype Command = Command (command: char) (count: nat)

abbreviation PointerIncr :: char where "PointerIncr \<equiv> CHR ''>''"
abbreviation PointerDecr :: char where "PointerDecr \<equiv> CHR ''<''"
abbreviation CellValIncr :: char where "CellValIncr \<equiv> CHR ''+''"
abbreviation CellValDecr :: char where "CellValDecr \<equiv> CHR ''-''"
abbreviation Cout :: char where "Cout \<equiv> CHR ''.''"
abbreviation Cin :: char where "Cin \<equiv> CHR '',''"
abbreviation LoopBegin :: char where "LoopBegin \<equiv> CHR ''[''"
abbreviation LoopEnd :: char where "LoopEnd \<equiv> CHR '']''"

text \<open>
  \<open>class Pointer\<close>: the storage \<open>mem_\<close> (a \<open>std::deque<char>\<close>, one byte per cell) and the
  cursor \<open>index_\<close>.
\<close>

record Pointer =
  mem :: "8 word list"
  index :: nat

section \<open>The command compiler\<close>

text \<open>\<open>isLoopCommand\<close> and \<open>isCommand\<close>, case by case as in the two \<open>switch\<close> statements.\<close>

definition isLoopCommand :: "char \<Rightarrow> bool" where
  "isLoopCommand ch = (ch = LoopBegin \<or> ch = LoopEnd)"

definition isCommand :: "char \<Rightarrow> bool" where
  "isCommand ch = (ch = LoopBegin \<or> ch = LoopEnd \<or> ch = PointerIncr \<or> ch = PointerDecr
     \<or> ch = CellValIncr \<or> ch = CellValDecr \<or> ch = Cout \<or> ch = Cin)"

text \<open>
  \<open>skipComment\<close>: the range \<open>[beg, end)\<close> is the list of characters still to be read; the
  result is the range that starts at the first character for which \<open>isCommand\<close> holds.
\<close>

fun skipComment :: "string \<Rightarrow> string" where
  "skipComment [] = []"
| "skipComment (c # cs) = (if isCommand c then c # cs else skipComment cs)"

lemma length_skipComment: "length (skipComment beg) \<le> length beg"
  by (induction beg) auto

text \<open>
  The inner loop of \<open>generateSourceCode\<close>,
  \<^verbatim>\<open>while ((beg = skipComment(beg, end)) != end and *beg == ch) { ++count; ++beg; }\<close>,
  returning the final \<open>count\<close> and \<open>beg\<close>.
\<close>

function accumulate :: "char \<Rightarrow> nat \<Rightarrow> string \<Rightarrow> nat \<times> string" where
  "accumulate ch cnt beg =
     (case skipComment beg of
        [] \<Rightarrow> (cnt, [])
      | c # cs \<Rightarrow> if c = ch then accumulate ch (cnt + 1) cs else (cnt, c # cs))"
  by pat_completeness auto
termination
proof (relation "measure (\<lambda>(ch, cnt, beg). length beg)")
  show "wf (measure (\<lambda>(ch, cnt, beg). length beg))" by simp
next
  fix ch :: char and cnt :: nat and beg :: string and c :: char and cs :: string
  assume "skipComment beg = c # cs"
  with length_skipComment [of beg] show "((ch, cnt + 1, cs), (ch, cnt, beg)) \<in> measure (\<lambda>(ch, cnt, beg). length beg)"
    by simp
qed

declare accumulate.simps [simp del]

lemma length_accumulate: "length (snd (accumulate ch cnt beg)) \<le> length beg"
proof (induction ch cnt beg rule: accumulate.induct)
  case (1 ch cnt beg)
  show ?case
  proof (cases "skipComment beg")
    case Nil
    then show ?thesis by (simp add: accumulate.simps [of ch cnt beg])
  next
    case (Cons c cs)
    with length_skipComment [of beg] have le: "Suc (length cs) \<le> length beg" by simp
    show ?thesis
    proof (cases "c = ch")
      case True
      with Cons "1.IH" [of c cs] le show ?thesis
        by (simp add: accumulate.simps [of ch cnt beg])
    next
      case False
      with Cons le show ?thesis by (simp add: accumulate.simps [of ch cnt beg])
    qed
  qed
qed

text \<open>
  \<open>generateSourceCode\<close>: one pass of the outer \<open>while (beg != end)\<close> loop per equation
  unfolding. The three branches set \<open>count\<close> and move \<open>beg\<close>; the
  \<open>source_code.emplace_back(ch, count)\<close> after them runs in every pass, whichever branch
  was taken, so the \<open>Command\<close> is the head of the result in all three cases.
\<close>

function generateSourceCode :: "string \<Rightarrow> Command list" where
  "generateSourceCode [] = []"
| "generateSourceCode (ch # rest) =
     (if isLoopCommand ch then Command ch 1 # generateSourceCode rest
      else if isCommand ch then
        Command ch (fst (accumulate ch 0 (ch # rest)))
          # generateSourceCode (snd (accumulate ch 0 (ch # rest)))
      else Command ch 0 # generateSourceCode rest)"
  by pat_completeness auto
termination
proof (relation "measure length")
  show "wf (measure length)" by simp
next
  fix ch :: char and rest :: string
  show "(rest, ch # rest) \<in> measure length" by simp
next
  fix ch :: char and rest :: string
  assume "\<not> isLoopCommand ch" and cmd: "isCommand ch"
  have "accumulate ch 0 (ch # rest) = accumulate ch 1 rest"
    using cmd by (simp add: accumulate.simps [of ch 0 "ch # rest"])
  with length_accumulate [of ch 1 rest]
  show "(snd (accumulate ch 0 (ch # rest)), ch # rest) \<in> measure length"
    by simp
next
  fix ch :: char and rest :: string
  show "(rest, ch # rest) \<in> measure length" by simp
qed

text \<open>
  \<open>main\<close> reads the source file through \<open>std::istream_iterator<char>\<close>, whose \<open>operator>>\<close>
  skips white space (the six characters of \<open>std::isspace\<close> in the "C" locale) before each
  character: these bytes never reach \<open>generateSourceCode\<close>.
\<close>

definition isspace :: "char \<Rightarrow> bool" where
  "isspace ch = (ch = CHR 0x20 \<or> ch = CHR 0x09 \<or> ch = CHR 0x0A \<or> ch = CHR 0x0B
     \<or> ch = CHR 0x0C \<or> ch = CHR 0x0D)"

definition istream_chars :: "string \<Rightarrow> string" where
  "istream_chars src = filter (\<lambda>ch. \<not> isspace ch) src"

definition compile :: "string \<Rightarrow> Command list" where
  "compile src = generateSourceCode (istream_chars src)"

section \<open>The cell tape\<close>

text \<open>\<open>Pointer p;\<close> in \<open>main\<close>: \<open>preAllocatedMemory = 1\<close>, so one cell holding 0, cursor 0.\<close>

definition Pointer_init :: Pointer where
  "Pointer_init = \<lparr>mem = [0], index = 0\<rparr>"

text \<open>
  \<open>operator+=\<close>: \<open>index_ += c\<close>, then \<open>mem_.resize(index_ + 1)\<close> when
  \<open>mem_.size() <= index_\<close>; the new cells are value-initialised, that is 0. The cursor is
  a natural number: it is bounded by the size of the storage, which is far below \<open>2 ^ 64\<close>.
\<close>

definition Pointer_add :: "nat \<Rightarrow> Pointer \<Rightarrow> Pointer" where
  "Pointer_add c p =
     (let i = index p + c
      in \<lparr>mem = (if length (mem p) \<le> i then mem p @ replicate (i + 1 - length (mem p)) 0
                 else mem p),
          index = i\<rparr>)"

text \<open>
  \<open>operator-=\<close>: \<open>assert(index_ - c < index_)\<close> is evaluated on \<open>std::size_t\<close>, where the
  difference wraps modulo \<open>2 ^ 64\<close>; then \<open>index_ -= c\<close>.
\<close>

definition size_t_minus :: "nat \<Rightarrow> nat \<Rightarrow> nat" where
  "size_t_minus a b = nat ((int a - int b) mod 2 ^ 64)"

definition Pointer_sub :: "nat \<Rightarrow> Pointer \<Rightarrow> error + Pointer" where
  "Pointer_sub c p =
     (if size_t_minus (index p) c < index p then Inr (p\<lparr>index := size_t_minus (index p) c\<rparr>)
      else Inl AssertionFailure)"

text \<open>\<open>operator*\<close>: \<open>assert(mem_.size() > index_)\<close>, then the cell \<open>mem_[index_]\<close>.\<close>

definition deref :: "Pointer \<Rightarrow> error + 8 word" where
  "deref p = (if length (mem p) > index p then Inr (mem p ! index p) else Inl AssertionFailure)"

text \<open>An assignment through the reference that \<open>operator*\<close> returned.\<close>

definition assign :: "Pointer \<Rightarrow> 8 word \<Rightarrow> Pointer" where
  "assign p v = p\<lparr>mem := (mem p)[index p := v]\<rparr>"

text \<open>
  \<open>operation<'+'>(t, t2)\<close> is \<open>t += static_cast<char>(t2)\<close> and \<open>operation<'-'>\<close> is
  \<open>t -= static_cast<char>(t2)\<close>, on a \<open>char\<close> cell \<open>t\<close> and a \<open>std::size_t\<close> count \<open>t2\<close>: the
  count is cut to its low 8 bits and the sum is stored back into 8 bits.
\<close>

definition operation_plus :: "8 word \<Rightarrow> nat \<Rightarrow> 8 word" where
  "operation_plus t t2 = t + of_nat t2"

definition operation_minus :: "8 word \<Rightarrow> nat \<Rightarrow> 8 word" where
  "operation_minus t t2 = t - of_nat t2"

section \<open>Input and output streams\<close>

text \<open>
  \<open>std::cin\<close> is the bytes not yet read and the stream's failure state. \<open>std::cin >> c\<close>
  for a \<open>char\<close> fails at once when the stream has already failed; otherwise it skips white
  space and stores the next byte, or, when no byte is left, sets the failure state and
  leaves \<open>c\<close> as it was.
\<close>

record istream =
  bytes :: "8 word list"
  failed :: bool

definition isspace_byte :: "8 word \<Rightarrow> bool" where
  "isspace_byte b = (b = 0x20 \<or> b = 0x09 \<or> b = 0x0A \<or> b = 0x0B \<or> b = 0x0C \<or> b = 0x0D)"

definition extract_char :: "istream \<Rightarrow> 8 word \<Rightarrow> istream \<times> 8 word" where
  "extract_char s c =
     (if failed s then (s, c)
      else case dropWhile isspace_byte (bytes s) of
             [] \<Rightarrow> (\<lparr>bytes = [], failed = True\<rparr>, c)
           | b # bs \<Rightarrow> (\<lparr>bytes = bs, failed = False\<rparr>, b))"

text \<open>Everything \<open>interpret\<close> can touch: the tape, \<open>std::cin\<close> and the bytes written to \<open>std::cout\<close>.\<close>

record World =
  ptr :: Pointer
  cin :: istream
  cout :: "8 word list"

section \<open>The dispatch function \<open>interpret\<close>\<close>

text \<open>The \<open>for\<close> loop of the \<open>Cin\<close> case: \<open>count\<close> times \<open>std::cin >> *p\<close>.\<close>

fun cin_loop :: "nat \<Rightarrow> World \<Rightarrow> error + World" where
  "cin_loop 0 w = Inr w"
| "cin_loop (Suc i) w =
     (case deref (ptr w) of
        Inl e \<Rightarrow> Inl e
      | Inr v \<Rightarrow> (case extract_char (cin w) v of
                   (s, v') \<Rightarrow> cin_loop i (w\<lparr>ptr := assign (ptr w) v', cin := s\<rparr>)))"

text \<open>
  \<open>interpret\<close> (named \<open>interpret_Command\<close> here, \<open>interpret\<close> being a keyword of
  Isabelle): the \<open>switch\<close> over \<open>com.command()\<close>, with the returned \<open>bool\<close>. The two
  loop characters have no case of their own and reach \<open>default\<close>.
\<close>

definition interpret_Command :: "Command \<Rightarrow> World \<Rightarrow> error + bool \<times> World" where
  "interpret_Command com w =
     (let ch = command com; cnt = count com
      in if ch = PointerIncr then Inr (True, w\<lparr>ptr := Pointer_add cnt (ptr w)\<rparr>)
         else if ch = PointerDecr then
           (case Pointer_sub cnt (ptr w) of
              Inl e \<Rightarrow> Inl e
            | Inr p' \<Rightarrow> Inr (True, w\<lparr>ptr := p'\<rparr>))
         else if ch = CellValIncr then
           (case deref (ptr w) of
              Inl e \<Rightarrow> Inl e
            | Inr v \<Rightarrow> Inr (True, w\<lparr>ptr := assign (ptr w) (operation_plus v cnt)\<rparr>))
         else if ch = CellValDecr then
           (case deref (ptr w) of
              Inl e \<Rightarrow> Inl e
            | Inr v \<Rightarrow> Inr (True, w\<lparr>ptr := assign (ptr w) (operation_minus v cnt)\<rparr>))
         else if ch = Cout then
           (case deref (ptr w) of
              Inl e \<Rightarrow> Inl e
            | Inr v \<Rightarrow> Inr (True, w\<lparr>cout := cout w @ replicate cnt v\<rparr>))
         else if ch = Cin then
           (case cin_loop cnt w of Inl e \<Rightarrow> Inl e | Inr w' \<Rightarrow> Inr (True, w'))
         else Inr (False, w))"

section \<open>The loop resolver \<open>skipLoop\<close>\<close>

text \<open>
  The \<open>do ... while (bracketCount != 0)\<close> loop at position \<open>p\<close> of the program, with the
  \<open>std::size_t\<close> counter wrapping modulo \<open>2 ^ 64\<close>. Reading past the last Command is
  \<open>OutOfBounds\<close>. When the loop ends the function returns \<open>p - 1\<close> for the advanced \<open>p\<close>,
  which is the position just examined.
\<close>

function skipLoop_loop :: "Command list \<Rightarrow> nat \<Rightarrow> nat \<Rightarrow> error + nat" where
  "skipLoop_loop prog p bracketCount =
     (if length prog \<le> p then Inl OutOfBounds
      else let bc = (if command (prog ! p) = LoopBegin then (bracketCount + 1) mod 2 ^ 64
                     else if command (prog ! p) = LoopEnd then (bracketCount + 2 ^ 64 - 1) mod 2 ^ 64
                     else bracketCount)
           in if bc \<noteq> 0 then skipLoop_loop prog (p + 1) bc else Inr p)"
  by pat_completeness auto
termination
  by (relation "measure (\<lambda>(prog, p, bracketCount). length prog - p)") auto

declare skipLoop_loop.simps [simp del]

text \<open>\<open>skipLoop\<close>: \<open>assert(*p == Command::LoopBegin)\<close>, then the loop from \<open>bracketCount = 0\<close>.\<close>

definition skipLoop :: "Command list \<Rightarrow> nat \<Rightarrow> error + nat" where
  "skipLoop prog p =
     (if length prog \<le> p then Inl OutOfBounds
      else if command (prog ! p) \<noteq> LoopBegin then Inl AssertionFailure
      else skipLoop_loop prog p 0)"

section \<open>The execution engine: the loop of \<open>main\<close>\<close>

text \<open>
  The state of the loop: the iterator \<open>it\<close> as a position of the program, the stack
  \<open>loopPos\<close> with its top first, and the world that \<open>interpret\<close> acts on.
\<close>

record Machine =
  it :: nat
  loopPos :: "nat list"
  world :: World

text \<open>One pass through the body of \<open>while (it != end)\<close>.\<close>

definition step :: "Command list \<Rightarrow> Machine \<Rightarrow> error + Machine" where
  "step prog s =
     (if length prog \<le> it s then Inl OutOfBounds
      else if command (prog ! it s) = LoopBegin then
        (case deref (ptr (world s)) of
           Inl e \<Rightarrow> Inl e
         | Inr v \<Rightarrow>
             if v = 0 then
               (case skipLoop prog (it s) of
                  Inl e \<Rightarrow> Inl e
                | Inr m \<Rightarrow> Inr (s\<lparr>it := m + 1\<rparr>))
             else Inr (s\<lparr>it := it s + 1, loopPos := it s # loopPos s\<rparr>))
      else if command (prog ! it s) = LoopEnd then
        (case loopPos s of
           [] \<Rightarrow> Inl AssertionFailure
         | pos # rest \<Rightarrow> Inr (s\<lparr>it := pos, loopPos := rest\<rparr>))
      else
        (case interpret_Command (prog ! it s) (world s) of
           Inl e \<Rightarrow> Inl e
         | Inr (b, w) \<Rightarrow> Inr (s\<lparr>it := it s + 1, world := w\<rparr>)))"

text \<open>
  The loop itself may run forever, so it takes a bound on the number of passes: \<open>None\<close>
  when the bound is used up, otherwise the error that stopped the run or the state in
  which \<open>it == end\<close>.
\<close>

fun run :: "nat \<Rightarrow> Command list \<Rightarrow> Machine \<Rightarrow> (error + Machine) option" where
  "run 0 prog s = (if it s = length prog then Some (Inr s) else None)"
| "run (Suc n) prog s =
     (if it s = length prog then Some (Inr s)
      else case step prog s of
             Inl e \<Rightarrow> Some (Inl e)
           | Inr s' \<Rightarrow> run n prog s')"

text \<open>
  \<open>main\<close> after the source file has been opened: compile its text, then run from the first
  Command with an empty stack, a fresh tape, the given input and nothing written yet.
\<close>

definition initial :: "8 word list \<Rightarrow> Machine" where
  "initial input =
     \<lparr>it = 0, loopPos = [],
      world = \<lparr>ptr = Pointer_init, cin = \<lparr>bytes = input, failed = False\<rparr>, cout = []\<rparr>\<rparr>"

definition main :: "nat \<Rightarrow> string \<Rightarrow> 8 word list \<Rightarrow> (error + Machine) option" where
  "main n src input = run n (compile src) (initial input)"

section \<open>Notions used to state the properties\<close>

text \<open>
  The characters that the inner loop of \<open>generateSourceCode\<close> passes over while it
  accumulates a run of \<open>ch\<close>: \<open>ch\<close> itself and every comment character.
\<close>

definition inRun :: "char \<Rightarrow> char \<Rightarrow> bool" where
  "inRun ch x = (x = ch \<or> \<not> isCommand x)"

text \<open>
  Bracket structure of a piece of a Program: every \<open>LoopBegin\<close> in it is closed by a
  \<open>LoopEnd\<close> in it, properly nested. In \<open>b # body @ e # cs\<close> with \<open>body\<close> balanced, \<open>e\<close> is the
  \<open>LoopEnd\<close> that matches the \<open>LoopBegin\<close> \<open>b\<close>.
\<close>

inductive balanced :: "Command list \<Rightarrow> bool" where
  balanced_Nil: "balanced []"
| balanced_other:
    "command c \<noteq> LoopBegin \<Longrightarrow> command c \<noteq> LoopEnd \<Longrightarrow> balanced cs \<Longrightarrow> balanced (c # cs)"
| balanced_loop:
    "command b = LoopBegin \<Longrightarrow> command e = LoopEnd \<Longrightarrow> balanced body \<Longrightarrow> balanced cs
     \<Longrightarrow> balanced (b # body @ e # cs)"

text \<open>
  The canonical character stream of an instruction sequence: for each Command in turn, its
  character repeated \<open>count\<close> times. The program has no such function; this one follows the
  words of the specification.
\<close>

definition serialize :: "Command list \<Rightarrow> string" where
  "serialize prog = concat (map (\<lambda>com. replicate (count com) (command com)) prog)"

text \<open>
  A run-length encoded sequence of operator Commands: only operator characters, loop
  Commands with count 1, the others with a positive count and never followed by a Command
  of the same character.
\<close>

fun rle_ok :: "Command list \<Rightarrow> bool" where
  "rle_ok [] = True"
| "rle_ok (x # xs) =
     (isCommand (command x)
      \<and> (if isLoopCommand (command x) then count x = 1
         else 1 \<le> count x \<and> (xs = [] \<or> command (hd xs) \<noteq> command x))
      \<and> rle_ok xs)"

text \<open>
  A Program without its comment Commands (those whose character is none of the eight
  operator characters), and the position in it that corresponds to position \<open>i\<close> of the
  Program: the number of operator Commands before \<open>i\<close>.
\<close>

definition without_comments :: "Command list \<Rightarrow> Command list" where
  "without_comments prog = filter (\<lambda>com. isCommand (command com)) prog"

definition newpos :: "Command list \<Rightarrow> nat \<Rightarrow> nat" where
  "newpos prog i = length (without_comments (take i prog))"

text \<open>
  The state of the loop of \<open>main\<close> carried over to the Program without comments: the iterator
  and the stacked positions are translated, the world is the same.
\<close>

definition moved :: "Command list \<Rightarrow> Machine \<Rightarrow> Machine" where
  "moved prog s = s\<lparr>it := newpos prog (it s), loopPos := map (newpos prog) (loopPos s)\<rparr>"

text \<open>The iterator and the stacked positions are positions of the Program, or its end.\<close>

definition in_range :: "Command list \<Rightarrow> Machine \<Rightarrow> bool" where
  "in_range prog s = (it s \<le> length prog \<and> (\<forall>pos\<in>set (loopPos s). pos \<le> length prog))"

text \<open>
  What can be observed of a run: nothing while it has not ended, else the error, or the
  final world (the tape, the input stream not yet consumed, the bytes written).
\<close>

definition outcome :: "(error + Machine) option \<Rightarrow> (error + World) option" where
  "outcome r = map_option (map_sum (\<lambda>e. e) world) r"

text \<open>The counter of \<open>skipLoop\<close> after the Command \<open>com\<close>, as the body of its loop computes it.\<close>

definition bracketCount_after :: "Command \<Rightarrow> nat \<Rightarrow> nat" where
  "bracketCount_after com k =
     (if command com = LoopBegin then (k + 1) mod 2 ^ 64
      else if command com = LoopEnd then (k + 2 ^ 64 - 1) mod 2 ^ 64
      else k)"

section \<open>Properties of the command compiler\<close>

lemma isLoopCommand_isCommand: "isLoopCommand ch \<Longrightarrow> isCommand ch"
  by (auto simp: isLoopCommand_def isCommand_def)

lemma isspace_not_isCommand: "isspace ch \<Longrightarrow> \<not> isCommand ch"
  by (auto simp: isspace_def isCommand_def)

lemma skipComment_dropWhile: "skipComment beg = dropWhile (\<lambda>x. \<not> isCommand x) beg"
  by (induction beg) auto

lemma accumulate_Nil: "accumulate ch cnt [] = (cnt, [])"
  by (simp add: accumulate.simps [of ch cnt "[]"])

lemma accumulate_comment: "\<not> isCommand c \<Longrightarrow> accumulate ch cnt (c # cs) = accumulate ch cnt cs"
  by (simp add: accumulate.simps [of ch cnt "c # cs"] accumulate.simps [of ch cnt cs])

lemma accumulate_same: "isCommand ch \<Longrightarrow> accumulate ch cnt (ch # cs) = accumulate ch (cnt + 1) cs"
  by (simp add: accumulate.simps [of ch cnt "ch # cs"])

lemma accumulate_other:
  "isCommand c \<Longrightarrow> c \<noteq> ch \<Longrightarrow> accumulate ch cnt (c # cs) = (cnt, c # cs)"
  by (simp add: accumulate.simps [of ch cnt "c # cs"])

text \<open>
  The inner loop in closed form: it consumes the longest prefix made of \<open>ch\<close> and
  comments, and adds the number of \<open>ch\<close> in it to the count.
\<close>

lemma accumulate_eq:
  "isCommand ch \<Longrightarrow>
   accumulate ch cnt beg
     = (cnt + count_list (takeWhile (inRun ch) beg) ch, dropWhile (inRun ch) beg)"
proof (induction beg arbitrary: cnt)
  case Nil
  show ?case by (simp add: accumulate_Nil)
next
  case (Cons c cs)
  show ?case
  proof (cases "isCommand c")
    case False
    then have "c \<noteq> ch" using Cons.prems by auto
    with False Cons show ?thesis by (simp add: accumulate_comment inRun_def)
  next
    case True
    show ?thesis
    proof (cases "c = ch")
      case True
      with Cons show ?thesis by (simp add: accumulate_same inRun_def)
    next
      case False
      with True show ?thesis by (simp add: accumulate_other inRun_def)
    qed
  qed
qed

lemma generateSourceCode_loop:
  "isLoopCommand ch \<Longrightarrow> generateSourceCode (ch # rest) = Command ch 1 # generateSourceCode rest"
  by simp

lemma generateSourceCode_comment:
  "\<not> isCommand ch \<Longrightarrow> generateSourceCode (ch # rest) = Command ch 0 # generateSourceCode rest"
  using isLoopCommand_isCommand [of ch] by auto

lemma generateSourceCode_run:
  "isCommand ch \<Longrightarrow> \<not> isLoopCommand ch \<Longrightarrow>
   generateSourceCode (ch # rest)
     = Command ch (Suc (count_list (takeWhile (inRun ch) rest) ch))
         # generateSourceCode (dropWhile (inRun ch) rest)"
  by (simp add: accumulate_eq inRun_def)

declare generateSourceCode.simps(2) [simp del]

lemmas compile_eval =
  compile_def istream_chars_def isspace_def isCommand_def isLoopCommand_def
  generateSourceCode.simps(2) accumulate.simps

text \<open>
  Compilation of a text that continues with an operator character \<open>x\<close> splits before \<open>x\<close>,
  unless \<open>x\<close> continues a run: that is, unless \<open>x\<close> is not a loop character and is the last
  operator character before it.
\<close>

lemma inRun_all_filter:
  "\<forall>y\<in>set ys. inRun ch y \<Longrightarrow> set (filter isCommand ys) \<subseteq> {ch}"
  by (auto simp: inRun_def)

lemma takeWhile_dropWhile_run_append:
  assumes "isCommand x" and "(\<forall>y\<in>set rest. inRun ch y) \<longrightarrow> x \<noteq> ch"
  shows "takeWhile (inRun ch) (rest @ x # xs) = takeWhile (inRun ch) rest
       \<and> dropWhile (inRun ch) (rest @ x # xs) = dropWhile (inRun ch) rest @ x # xs"
proof (cases "\<forall>y\<in>set rest. inRun ch y")
  case True
  with assms have nx: "\<not> inRun ch x" by (simp add: inRun_def)
  have tw: "takeWhile (inRun ch) rest = rest"
    using True takeWhile_eq_all_conv [of "inRun ch" rest] by blast
  have dw: "dropWhile (inRun ch) rest = []"
    using True dropWhile_eq_Nil_conv [of "inRun ch" rest] by blast
  have "takeWhile (inRun ch) (rest @ x # xs) = rest @ takeWhile (inRun ch) (x # xs)"
    using True by (simp add: takeWhile_append2)
  also have "\<dots> = rest" using nx by simp
  finally have t: "takeWhile (inRun ch) (rest @ x # xs) = takeWhile (inRun ch) rest"
    using tw by (simp only:)
  have "dropWhile (inRun ch) (rest @ x # xs) = dropWhile (inRun ch) (x # xs)"
    using True by (simp add: dropWhile_append2)
  also have "\<dots> = [] @ x # xs" using nx by simp
  finally have "dropWhile (inRun ch) (rest @ x # xs) = dropWhile (inRun ch) rest @ x # xs"
    using dw by (simp only:)
  with t show ?thesis by (rule conjI)
next
  case False
  then obtain y where "y \<in> set rest" "\<not> inRun ch y" by blast
  then show ?thesis by (simp add: takeWhile_append1 dropWhile_append1)
qed

lemma generateSourceCode_append:
  assumes "isCommand x"
    and "isLoopCommand x \<or> filter isCommand pre = [] \<or> last (filter isCommand pre) \<noteq> x"
  shows "generateSourceCode (pre @ x # xs) = generateSourceCode pre @ generateSourceCode (x # xs)"
  using assms(2)
proof (induction pre rule: length_induct)
  case (1 pre)
  show ?case
  proof (cases pre)
    case Nil
    then show ?thesis by simp
  next
    case (Cons ch rest)
    consider (loop) "isLoopCommand ch" | (run) "isCommand ch" "\<not> isLoopCommand ch"
      | (comment) "\<not> isCommand ch"
      by blast
    then show ?thesis
    proof cases
      case loop
      then have "isCommand ch" by (rule isLoopCommand_isCommand)
      with "1.prems" Cons
      have "isLoopCommand x \<or> filter isCommand rest = [] \<or> last (filter isCommand rest) \<noteq> x"
        by (auto split: if_splits)
            moreover have "length rest < length pre" using Cons by simp
      ultimately
      have "generateSourceCode (rest @ x # xs) = generateSourceCode rest @ generateSourceCode (x # xs)"
        using "1.IH" by blast
      with loop Cons show ?thesis by (simp add: generateSourceCode_loop)
    next
      case comment
      with "1.prems" Cons
      have "isLoopCommand x \<or> filter isCommand rest = [] \<or> last (filter isCommand rest) \<noteq> x"
        by simp
      moreover have "length rest < length pre" using Cons by simp
      ultimately
      have "generateSourceCode (rest @ x # xs) = generateSourceCode rest @ generateSourceCode (x # xs)"
        using "1.IH" by blast
      with comment Cons show ?thesis by (simp add: generateSourceCode_comment)
    next
      case run
      let ?d = "dropWhile (inRun ch) rest"
      have ne: "(\<forall>y\<in>set rest. inRun ch y) \<longrightarrow> x \<noteq> ch"
      proof
        assume all: "\<forall>y\<in>set rest. inRun ch y"
        have sub: "set (filter isCommand rest) \<subseteq> {ch}" using all by (rule inRun_all_filter)
        have "last (ch # filter isCommand rest) = ch"
        proof (cases "filter isCommand rest = []")
          case True
          then show ?thesis by simp
        next
          case False
          then have "last (filter isCommand rest) \<in> set (filter isCommand rest)"
            by (rule last_in_set)
          with sub have "last (filter isCommand rest) = ch" by blast
          with False show ?thesis by simp
        qed
        with "1.prems" Cons run show "x \<noteq> ch" by auto
      qed
      note td = takeWhile_dropWhile_run_append [OF assms(1) ne, of xs]
      have "isLoopCommand x \<or> filter isCommand ?d = [] \<or> last (filter isCommand ?d) \<noteq> x"
      proof (cases "filter isCommand ?d = []")
        case True
        then show ?thesis by simp
      next
        case False
        have "filter isCommand pre
                = filter isCommand (ch # takeWhile (inRun ch) rest) @ filter isCommand ?d"
          unfolding Cons by (simp flip: filter_append)
        with False have "last (filter isCommand pre) = last (filter isCommand ?d)"
          and "filter isCommand pre \<noteq> []" by simp_all
        with "1.prems" show ?thesis by auto
      qed
      moreover have "length ?d < length pre"
        using length_dropWhile_le [of "inRun ch" rest] Cons by simp
      ultimately
      have "generateSourceCode (?d @ x # xs) = generateSourceCode ?d @ generateSourceCode (x # xs)"
        using "1.IH" by blast
      with run Cons td show ?thesis by (simp add: generateSourceCode_run)
    qed
  qed
qed

lemma generateSourceCode_whole_run:
  assumes "isCommand c" and "\<not> isLoopCommand c"
    and "\<forall>x\<in>set body. x = c \<or> \<not> isCommand x"
    and "post = [] \<or> isCommand (hd post) \<and> hd post \<noteq> c"
  shows "generateSourceCode (c # body @ post)
           = Command c (Suc (count_list body c)) # generateSourceCode post"
proof -
  have all: "\<forall>x\<in>set body. inRun c x" using assms(3) by (simp add: inRun_def)
  have "takeWhile (inRun c) post = [] \<and> dropWhile (inRun c) post = post"
    using assms(4) by (cases post) (auto simp: inRun_def)
  with all have "takeWhile (inRun c) (body @ post) = body"
    and "dropWhile (inRun c) (body @ post) = post"
    by (simp_all add: takeWhile_append2 dropWhile_append2)
  with assms(1,2) show ?thesis by (simp add: generateSourceCode_run)
qed

lemma filter_isCommand_istream_chars:
  "filter isCommand (istream_chars src) = filter isCommand src"
  unfolding istream_chars_def filter_filter
  by (rule filter_cong) (auto dest: isspace_not_isCommand)

lemma run_maximal_istream_chars:
  "post = [] \<or> isCommand (hd post) \<and> hd post \<noteq> c
   \<Longrightarrow> istream_chars post = [] \<or> isCommand (hd (istream_chars post)) \<and> hd (istream_chars post) \<noteq> c"
  by (cases post) (auto simp: istream_chars_def dest: isspace_not_isCommand)

text \<open>
  What compilation guarantees in spite of the Commands it emits for comment bytes: those
  have count 0, loop Commands have count 1 and the Commands of the other operators a
  positive count; and without its comment Commands a compiled sequence is a run-length
  encoding, which compiling its canonical character stream gives back.
\<close>

lemma generateSourceCode_hd:
  "src \<noteq> [] \<Longrightarrow> generateSourceCode src \<noteq> [] \<and> command (hd (generateSourceCode src)) = hd src"
  by (cases src) (simp_all add: generateSourceCode.simps(2))

lemma generateSourceCode_counts:
  "com \<in> set (generateSourceCode src) \<Longrightarrow>
     (isLoopCommand (command com) \<longrightarrow> count com = 1)
   \<and> (isCommand (command com) \<longrightarrow> 1 \<le> count com)
   \<and> (\<not> isCommand (command com) \<longrightarrow> count com = 0)"
proof (induction src rule: length_induct)
  case (1 src)
  show ?case
  proof (cases src)
    case Nil
    with "1.prems" show ?thesis by simp
  next
    case (Cons ch rest)
    let ?d = "dropWhile (inRun ch) rest"
    have IH: "com \<in> set (generateSourceCode ys) \<Longrightarrow> ?thesis" if "length ys \<le> length rest" for ys
      using "1.IH" [rule_format, of ys] that Cons by simp
    have d: "length ?d \<le> length rest" by (rule length_dropWhile_le)
    consider (loop) "isLoopCommand ch" | (run) "isCommand ch" "\<not> isLoopCommand ch"
      | (comment) "\<not> isCommand ch"
      by blast
    then show ?thesis
    proof cases
      case loop
      with "1.prems" Cons IH [of rest] isLoopCommand_isCommand [of ch] show ?thesis
        by (auto simp: generateSourceCode_loop)
    next
      case run
      with "1.prems" Cons IH [OF d] show ?thesis
        by (auto simp: generateSourceCode_run)
    next
      case comment
      with "1.prems" Cons IH [of rest] isLoopCommand_isCommand [of ch] show ?thesis
        by (auto simp: generateSourceCode_comment)
    qed
  qed
qed

lemma rle_ok_generateSourceCode:
  "rle_ok (filter (\<lambda>com. isCommand (command com)) (generateSourceCode src))"
proof (induction src rule: length_induct)
  case (1 src)
  show ?case
  proof (cases src)
    case Nil
    then show ?thesis by simp
  next
    case (Cons ch rest)
    let ?d = "dropWhile (inRun ch) rest"
    let ?op = "\<lambda>com. isCommand (command com)"
    have IH: "rle_ok (filter ?op (generateSourceCode ys))" if "length ys \<le> length rest" for ys
      using "1.IH" [rule_format, of ys] that Cons by simp
    have d: "length ?d \<le> length rest" by (rule length_dropWhile_le)
    consider (loop) "isLoopCommand ch" | (run) "isCommand ch" "\<not> isLoopCommand ch"
      | (comment) "\<not> isCommand ch"
      by blast
    then show ?thesis
    proof cases
      case loop
      with Cons IH [of rest] isLoopCommand_isCommand [of ch] show ?thesis
        by (simp add: generateSourceCode_loop)
    next
      case comment
      with Cons IH [of rest] show ?thesis
        by (simp add: generateSourceCode_comment)
    next
      case run
      have nxt: "filter ?op (generateSourceCode ?d) = []
                \<or> command (hd (filter ?op (generateSourceCode ?d))) \<noteq> ch"
      proof (cases ?d)
        case Nil
        show ?thesis unfolding Nil by simp
      next
        case (Cons y ys)
        then have "\<not> inRun ch y" using hd_dropWhile [of "inRun ch" rest] by simp
        then have y: "isCommand y" "y \<noteq> ch" by (simp_all add: inRun_def)
        from generateSourceCode_hd [of ?d] Cons
        have ne: "generateSourceCode ?d \<noteq> []"
          and h: "command (hd (generateSourceCode ?d)) = y" by simp_all
        from ne obtain a as where a: "generateSourceCode ?d = a # as"
          by (cases "generateSourceCode ?d") simp_all
        with h have "command a = y" by simp
        with y a show ?thesis by simp
      qed
      with run Cons IH [OF d] show ?thesis
        by (simp add: generateSourceCode_run)
    qed
  qed
qed

lemma serialize_Cons:
  "serialize (x # xs) = replicate (count x) (command x) @ serialize xs"
  by (simp add: serialize_def)

lemma serialize_filter:
  "\<forall>com\<in>set prog. \<not> isCommand (command com) \<longrightarrow> count com = 0 \<Longrightarrow>
   serialize (filter (\<lambda>com. isCommand (command com)) prog) = serialize prog"
  by (induction prog) (simp_all add: serialize_def)

lemma rle_ok_serialize_hd:
  "rle_ok xs \<Longrightarrow> xs \<noteq> [] \<Longrightarrow>
   serialize xs \<noteq> [] \<and> hd (serialize xs) = command (hd xs) \<and> isCommand (hd (serialize xs))"
proof (cases xs)
  case Nil
  assume "xs \<noteq> []"
  with Nil show ?thesis by simp
next
  case (Cons x ys)
  assume "rle_ok xs"
  with Cons have "1 \<le> count x" "isCommand (command x)" by (auto split: if_splits)
  then obtain n where "count x = Suc n" by (cases "count x") simp_all
  with Cons \<open>isCommand (command x)\<close> show ?thesis by (simp add: serialize_Cons)
qed

lemma generateSourceCode_serialize:
  "rle_ok prog \<Longrightarrow> generateSourceCode (serialize prog) = prog"
proof (induction prog)
  case Nil
  show ?case by (simp add: serialize_def)
next
  case (Cons x xs)
  from Cons.prems have ok: "rle_ok xs" and cmd: "isCommand (command x)" by simp_all
  from Cons.IH ok have IH: "generateSourceCode (serialize xs) = xs" by simp
  show ?case
  proof (cases "isLoopCommand (command x)")
    case True
    with Cons.prems have "count x = 1" by simp
    with True IH have "generateSourceCode (serialize (x # xs)) = Command (command x) 1 # xs"
      by (simp add: serialize_Cons generateSourceCode_loop)
    with \<open>count x = 1\<close> show ?thesis by (cases x) simp
  next
    case False
    with Cons.prems have cnt: "1 \<le> count x" and nxt: "xs = [] \<or> command (hd xs) \<noteq> command x"
      by simp_all
    then obtain n where n: "count x = Suc n" by (cases "count x") simp_all
    have post: "serialize xs = [] \<or> isCommand (hd (serialize xs)) \<and> hd (serialize xs) \<noteq> command x"
    proof (cases "xs = []")
      case True
      then show ?thesis by (simp add: serialize_def)
    next
      case False
      from rle_ok_serialize_hd [OF ok False]
      have a: "serialize xs \<noteq> []" and b: "hd (serialize xs) = command (hd xs)"
        and c: "isCommand (hd (serialize xs))" by blast+
      from nxt False have "command (hd xs) \<noteq> command x" by simp
      with b have "hd (serialize xs) \<noteq> command x" by simp
      with c show ?thesis by simp
    qed
    have "generateSourceCode (command x # replicate n (command x) @ serialize xs)
            = Command (command x) (Suc (count_list (replicate n (command x)) (command x)))
                # generateSourceCode (serialize xs)"
      using cmd False post by (intro generateSourceCode_whole_run) simp_all
    moreover have "count_list (replicate n c) c = n" for c :: char
      by (induction n) simp_all
    ultimately have "generateSourceCode (serialize (x # xs)) = Command (command x) (Suc n) # xs"
      using n IH by (simp add: serialize_Cons)
    with n show ?thesis by (cases x) simp
  qed
qed

lemma recompile_removes_comments:
  "generateSourceCode (serialize (generateSourceCode src))
     = filter (\<lambda>com. isCommand (command com)) (generateSourceCode src)"
proof -
  let ?op = "\<lambda>com. isCommand (command com)"
  have "serialize (filter ?op (generateSourceCode src)) = serialize (generateSourceCode src)"
    using generateSourceCode_counts [of _ src] by (intro serialize_filter) blast
  with generateSourceCode_serialize [OF rle_ok_generateSourceCode, of src] show ?thesis
    by simp
qed

section \<open>Properties of the tape, the streams and the loop resolver\<close>

lemmas run_eval =
  initial_def step_def interpret_Command_def deref_def assign_def
  Pointer_init_def Pointer_add_def Pointer_sub_def size_t_minus_def
  operation_plus_def operation_minus_def skipLoop_def skipLoop_loop.simps
  extract_char_def isspace_byte_def

lemma run_numeral:
  "run (numeral k) prog s =
     (if it s = length prog then Some (Inr s)
      else case step prog s of
             Inl e \<Rightarrow> Some (Inl e)
           | Inr s' \<Rightarrow> run (pred_numeral k) prog s')"
  by (simp add: numeral_eq_Suc)

text \<open>
  The assertion of \<open>operator-=\<close>, read on \<open>std::size_t\<close> values: it holds exactly when
  \<open>c\<close> is not 0 and does not exceed the cursor.
\<close>

lemma size_t_minus_no_wrap:
  assumes "c \<le> i" and "i < 2 ^ 64"
  shows "size_t_minus i c = i - c"
proof -
  have "(int i - int c) mod 2 ^ 64 = int (i - c)"
    using assms by (simp add: of_nat_diff)
  then show ?thesis by (simp add: size_t_minus_def)
qed

lemma size_t_minus_assert:
  assumes "i < 2 ^ 64" and "c < 2 ^ 64"
  shows "(size_t_minus i c < i) = (0 < c \<and> c \<le> i)"
proof (cases "c \<le> i")
  case True
  with size_t_minus_no_wrap [OF True assms(1)] show ?thesis by auto
next
  case False
  then have neg: "int i - int c < 0" and low: "- (2 ^ 64) \<le> int i - int c"
    using assms(2) by simp_all
  have "(int i - int c) mod 2 ^ 64 = (int i - int c + 2 ^ 64) mod 2 ^ 64" by simp
  also have "\<dots> = int i - int c + 2 ^ 64"
    using neg low by (intro mod_pos_pos_trivial) simp_all
  finally have "size_t_minus i c = nat (int i - int c + 2 ^ 64)" by (simp add: size_t_minus_def)
  moreover have "int i \<le> int i - int c + 2 ^ 64" using assms(2) by simp
  ultimately have "i \<le> size_t_minus i c" by linarith
  with False show ?thesis by simp
qed

lemma Pointer_sub_eq:
  assumes "index p < 2 ^ 64" and "c < 2 ^ 64"
  shows "Pointer_sub c p
           = (if 0 < c \<and> c \<le> index p then Inr (p\<lparr>index := index p - c\<rparr>) else Inl AssertionFailure)"
  using size_t_minus_assert [OF assms] size_t_minus_no_wrap [OF _ assms(1), of c]
  by (simp add: Pointer_sub_def)

lemma unat_operation_plus: "unat (operation_plus v n) = (unat v + n) mod 256"
  by (simp add: operation_plus_def unat_word_ariths unat_of_nat mod_simps)

lemma uint_operation_minus: "uint (operation_minus v n) = (uint v - int n) mod 256"
proof -
  have "uint (word_of_nat n :: 8 word) = int n mod 256"
    by (simp add: uint_nat unat_of_nat zmod_int)
  then show ?thesis
    by (simp add: operation_minus_def uint_word_ariths mod_simps)
qed

lemma deref_assign: "deref p = Inr v \<Longrightarrow> deref (assign p v') = Inr v'"
  by (auto simp: deref_def assign_def split: if_splits)

lemma assign_same: "deref p = Inr v \<Longrightarrow> assign p v = p"
  by (auto simp: deref_def assign_def split: if_splits)

lemma extract_char_exhausted:
  "bytes s = [] \<Longrightarrow> \<exists>s'. extract_char s v = (s', v) \<and> bytes s' = []"
  by (simp add: extract_char_def)

lemma cin_loop_exhausted:
  "bytes (cin w) = [] \<Longrightarrow> deref (ptr w) = Inr v \<Longrightarrow>
   \<exists>s'. cin_loop n w = Inr (w\<lparr>cin := s'\<rparr>) \<and> bytes s' = []"
proof (induction n arbitrary: w)
  case 0
  then show ?case by (intro exI [of _ "cin w"]) simp
next
  case (Suc n)
  from extract_char_exhausted [OF Suc.prems(1), of v]
  obtain s1 where s1: "extract_char (cin w) v = (s1, v)" "bytes s1 = []" by blast
  let ?w = "w\<lparr>cin := s1\<rparr>"
  have "bytes (cin ?w) = []" "deref (ptr ?w) = Inr v" using s1 Suc.prems by simp_all
  from Suc.IH [OF this] obtain s' where "cin_loop n ?w = Inr (?w\<lparr>cin := s'\<rparr>)" "bytes s' = []"
    by blast
  then show ?case using s1 Suc.prems assign_same [OF Suc.prems(2)]
    by (intro exI [of _ s']) simp
qed

text \<open>One pass of the loop of \<open>skipLoop\<close>, by the kind of Command under the iterator.\<close>

lemma skipLoop_loop_other:
  "p < length prog \<Longrightarrow> command (prog ! p) \<noteq> LoopBegin \<Longrightarrow> command (prog ! p) \<noteq> LoopEnd
   \<Longrightarrow> k \<noteq> 0 \<Longrightarrow> skipLoop_loop prog p k = skipLoop_loop prog (p + 1) k"
  by (simp add: skipLoop_loop.simps [of prog p k])

lemma skipLoop_loop_open:
  "p < length prog \<Longrightarrow> command (prog ! p) = LoopBegin \<Longrightarrow> Suc k < 2 ^ 64
   \<Longrightarrow> skipLoop_loop prog p k = skipLoop_loop prog (p + 1) (Suc k)"
  by (simp add: skipLoop_loop.simps [of prog p k])

lemma skipLoop_loop_close:
  assumes "p < length prog" and "command (prog ! p) = LoopEnd" and "Suc k < 2 ^ 64"
  shows "skipLoop_loop prog p (Suc k) = (if k = 0 then Inr p else skipLoop_loop prog (p + 1) k)"
proof -
  have "(Suc k + 2 ^ 64 - 1) mod 2 ^ 64 = (k + 2 ^ 64) mod 2 ^ 64" by simp
  also have "\<dots> = k" using assms(3) by simp
  finally show ?thesis
    using assms(1,2) by (simp add: skipLoop_loop.simps [of prog p "Suc k"])
qed

text \<open>
  Across a balanced piece the counter comes back to the value it had, and never reaches
  zero on the way: the scan goes on behind the piece with the same counter.
\<close>

lemma skipLoop_loop_balanced:
  "balanced body \<Longrightarrow> 0 < k \<Longrightarrow> k + length body < 2 ^ 64 \<Longrightarrow>
   skipLoop_loop (pre @ body @ post) (length pre) k
     = skipLoop_loop (pre @ body @ post) (length pre + length body) k"
proof (induction body arbitrary: pre k post rule: balanced.induct)
  case balanced_Nil
  show ?case by simp
next
  case (balanced_other c cs)
  have "skipLoop_loop (pre @ (c # cs) @ post) (length pre) k
          = skipLoop_loop (pre @ (c # cs) @ post) (length pre + 1) k"
    using balanced_other.hyps(1,2) balanced_other.prems(1)
    by (intro skipLoop_loop_other) simp_all
  also have "\<dots> = skipLoop_loop ((pre @ [c]) @ cs @ post) (length (pre @ [c])) k"
    by simp
  also have "\<dots> = skipLoop_loop ((pre @ [c]) @ cs @ post) (length (pre @ [c]) + length cs) k"
    using balanced_other.prems by (intro balanced_other.IH) simp_all
  finally show ?case by simp
next
  case (balanced_loop b e body cs)
  let ?prog = "pre @ (b # body @ e # cs) @ post"
  have k1: "Suc k < 2 ^ 64" using balanced_loop.prems by simp
  have "skipLoop_loop ?prog (length pre) k = skipLoop_loop ?prog (length pre + 1) (Suc k)"
    using balanced_loop.hyps(1) k1 by (intro skipLoop_loop_open) simp_all
  also have "\<dots> = skipLoop_loop ((pre @ [b]) @ body @ (e # cs @ post)) (length (pre @ [b])) (Suc k)"
    by simp
  also have "\<dots> = skipLoop_loop ((pre @ [b]) @ body @ (e # cs @ post))
                     (length (pre @ [b]) + length body) (Suc k)"
    using balanced_loop.prems by (intro balanced_loop.IH(1)) simp_all
  also have "\<dots> = skipLoop_loop ?prog (length pre + 1 + length body) (Suc k)"
    by simp
  also have "\<dots> = skipLoop_loop ?prog (length pre + 1 + length body + 1) k"
  proof -
    have "?prog ! (length pre + 1 + length body) = e"
      by (simp add: nth_append)
    then show ?thesis
      using balanced_loop.hyps(2) balanced_loop.prems(1) k1
      by (subst skipLoop_loop_close) simp_all
  qed
  also have "\<dots> = skipLoop_loop ((pre @ b # body @ [e]) @ cs @ post) (length (pre @ b # body @ [e])) k"
    by simp
  also have "\<dots> = skipLoop_loop ((pre @ b # body @ [e]) @ cs @ post)
                     (length (pre @ b # body @ [e]) + length cs) k"
    using balanced_loop.prems by (intro balanced_loop.IH(2)) simp_all
  finally show ?case by (simp add: add.assoc)
qed

lemma skipLoop_match:
  assumes "command b = LoopBegin" and "command e = LoopEnd" and "balanced body"
    and "length (pre @ b # body @ e # post) < 2 ^ 64"
  shows "skipLoop (pre @ b # body @ e # post) (length pre) = Inr (length pre + 1 + length body)"
proof -
  let ?prog = "pre @ b # body @ e # post"
  have "skipLoop ?prog (length pre) = skipLoop_loop ?prog (length pre) 0"
    using assms(1) by (simp add: skipLoop_def)
  also have "\<dots> = skipLoop_loop ?prog (length pre + 1) (Suc 0)"
    using assms(1) by (intro skipLoop_loop_open) simp_all
  also have "\<dots> = skipLoop_loop ((pre @ [b]) @ body @ (e # post)) (length (pre @ [b])) (Suc 0)"
    by simp
  also have "\<dots> = skipLoop_loop ((pre @ [b]) @ body @ (e # post)) (length (pre @ [b]) + length body) (Suc 0)"
    using assms(3,4) by (intro skipLoop_loop_balanced) simp_all
  also have "\<dots> = skipLoop_loop ?prog (length pre + 1 + length body) (Suc 0)"
    by simp
  also have "\<dots> = Inr (length pre + 1 + length body)"
  proof -
    have "?prog ! (length pre + 1 + length body) = e"
      by (simp add: nth_append)
    then show ?thesis
      using assms(2) by (subst skipLoop_loop_close) simp_all
  qed
  finally show ?thesis .
qed

section \<open>Running a Program with and without its comment Commands\<close>

lemma interpret_Command_comment:
  "\<not> isCommand (command com) \<Longrightarrow> interpret_Command com w = Inr (False, w)"
  by (auto simp: interpret_Command_def isCommand_def)

lemma newpos_0: "newpos prog 0 = 0"
  by (simp add: newpos_def without_comments_def)

lemma newpos_end: "length prog \<le> i \<Longrightarrow> newpos prog i = length (without_comments prog)"
  by (simp add: newpos_def)

lemma newpos_Suc_comment:
  "i < length prog \<Longrightarrow> \<not> isCommand (command (prog ! i)) \<Longrightarrow> newpos prog (Suc i) = newpos prog i"
  by (simp add: newpos_def without_comments_def take_Suc_conv_app_nth)

lemma newpos_Suc_operator:
  "i < length prog \<Longrightarrow> isCommand (command (prog ! i)) \<Longrightarrow> newpos prog (Suc i) = Suc (newpos prog i)"
  by (simp add: newpos_def without_comments_def take_Suc_conv_app_nth)

lemma nth_newpos:
  assumes "i < length prog" and "isCommand (command (prog ! i))"
  shows "newpos prog i < length (without_comments prog)
       \<and> without_comments prog ! newpos prog i = prog ! i"
proof -
  have "prog = take i prog @ prog ! i # drop (Suc i) prog"
    using assms(1) by (simp add: id_take_nth_drop)
  then have "without_comments prog
               = without_comments (take i prog) @ prog ! i # without_comments (drop (Suc i) prog)"
    using assms(2) unfolding without_comments_def by (metis filter.simps(2) filter_append)
  then show ?thesis by (simp add: newpos_def nth_append)
qed


lemma skipLoop_loop_pass:
  "p < length prog \<Longrightarrow>
   skipLoop_loop prog p k
     = (if bracketCount_after (prog ! p) k \<noteq> 0
        then skipLoop_loop prog (p + 1) (bracketCount_after (prog ! p) k) else Inr p)"
  by (simp add: skipLoop_loop.simps [of prog p k] bracketCount_after_def Let_def)

lemma skipLoop_loop_end: "length prog \<le> p \<Longrightarrow> skipLoop_loop prog p k = Inl OutOfBounds"
  by (simp add: skipLoop_loop.simps [of prog p k])

lemma bracketCount_after_other:
  "command com \<noteq> LoopBegin \<Longrightarrow> command com \<noteq> LoopEnd \<Longrightarrow> bracketCount_after com k = k"
  by (simp add: bracketCount_after_def)

lemma skipLoop_loop_stops_at_operator:
  "k \<noteq> 0 \<Longrightarrow> skipLoop_loop prog p k = Inr m \<Longrightarrow>
   m < length prog \<and> isCommand (command (prog ! m))"
proof (induction "length prog - p" arbitrary: p k)
  case 0
  then show ?case by (simp add: skipLoop_loop_end)
next
  case (Suc d)
  then have p: "p < length prog" by simp
  define bc where "bc = bracketCount_after (prog ! p) k"
  show ?case
  proof (cases "bc = 0")
    case True
    with Suc.prems(2) p have "m = p" by (simp add: skipLoop_loop_pass bc_def)
    moreover from True Suc.prems(1)
    have "command (prog ! p) = LoopBegin \<or> command (prog ! p) = LoopEnd"
      using bracketCount_after_other [of "prog ! p" k] unfolding bc_def by metis
    ultimately show ?thesis using p by (auto simp: isCommand_def)
  next
    case False
    with Suc.prems(2) p have "skipLoop_loop prog (p + 1) bc = Inr m"
      by (simp add: skipLoop_loop_pass bc_def)
    moreover have "d = length prog - (p + 1)" using Suc.hyps(2) by simp
    ultimately show ?thesis using Suc.hyps(1) False by blast
  qed
qed

lemma skipLoop_loop_without_comments:
  "k \<noteq> 0 \<Longrightarrow>
   skipLoop_loop (without_comments prog) (newpos prog p) k
     = map_sum (\<lambda>e. e) (newpos prog) (skipLoop_loop prog p k)"
proof (induction "length prog - p" arbitrary: p k)
  case 0
  then show ?case by (simp add: skipLoop_loop_end newpos_end)
next
  case (Suc d)
  let ?S = "without_comments prog"
  from Suc.hyps(2) have p: "p < length prog" and d: "d = length prog - (p + 1)" by simp_all
  define bc where "bc = bracketCount_after (prog ! p) k"
  have IH: "skipLoop_loop ?S (newpos prog (p + 1)) bc
              = map_sum (\<lambda>e. e) (newpos prog) (skipLoop_loop prog (p + 1) bc)" if "bc \<noteq> 0"
    using Suc.hyps(1) [OF d that] .
  show ?case
  proof (cases "isCommand (command (prog ! p))")
    case False
    then have "command (prog ! p) \<noteq> LoopBegin" "command (prog ! p) \<noteq> LoopEnd"
      by (auto simp: isCommand_def)
    then have bc: "bc = k" unfolding bc_def by (rule bracketCount_after_other)
    with Suc.prems p have "skipLoop_loop prog p k = skipLoop_loop prog (p + 1) bc"
      by (simp add: skipLoop_loop_pass bc_def)
    with IH bc Suc.prems newpos_Suc_comment [OF p False] show ?thesis by simp
  next
    case True
    from nth_newpos [OF p True]
    have n: "newpos prog p < length ?S" and nth: "?S ! newpos prog p = prog ! p" by simp_all
    have S: "skipLoop_loop ?S (newpos prog p) k
               = (if bc \<noteq> 0 then skipLoop_loop ?S (newpos prog p + 1) bc else Inr (newpos prog p))"
      using skipLoop_loop_pass [OF n, of k] nth by (simp add: bc_def)
    have P: "skipLoop_loop prog p k = (if bc \<noteq> 0 then skipLoop_loop prog (p + 1) bc else Inr p)"
      using skipLoop_loop_pass [OF p, of k] by (simp add: bc_def)
    show ?thesis
    proof (cases "bc = 0")
      case True
      with S P show ?thesis by simp
    next
      case False
      with S P IH newpos_Suc_operator [OF p \<open>isCommand (command (prog ! p))\<close>] show ?thesis
        by simp
    qed
  qed
qed

lemma skipLoop_unfold:
  "p < length prog \<Longrightarrow> command (prog ! p) = LoopBegin
   \<Longrightarrow> skipLoop prog p = skipLoop_loop prog (p + 1) (Suc 0)"
  using skipLoop_loop_open [of p prog 0] by (simp add: skipLoop_def)

lemma skipLoop_without_comments:
  assumes "p < length prog" and "command (prog ! p) = LoopBegin"
  shows "skipLoop (without_comments prog) (newpos prog p)
           = map_sum (\<lambda>e. e) (newpos prog) (skipLoop prog p)"
proof -
  have op: "isCommand (command (prog ! p))" using assms(2) by (simp add: isCommand_def)
  note n = nth_newpos [OF assms(1) op]
  have "skipLoop (without_comments prog) (newpos prog p)
          = skipLoop_loop (without_comments prog) (newpos prog p + 1) (Suc 0)"
    using n assms(2) by (intro skipLoop_unfold) simp_all
  also have "\<dots> = skipLoop_loop (without_comments prog) (newpos prog (p + 1)) (Suc 0)"
    using newpos_Suc_operator [OF assms(1) op] by simp
  also have "\<dots> = map_sum (\<lambda>e. e) (newpos prog) (skipLoop_loop prog (p + 1) (Suc 0))"
    by (intro skipLoop_loop_without_comments) simp
  finally show ?thesis using skipLoop_unfold [OF assms] by simp
qed

lemma skipLoop_stops_at_operator:
  assumes "skipLoop prog p = Inr m"
  shows "m < length prog \<and> isCommand (command (prog ! m))"
proof -
  from assms have p: "p < length prog" "command (prog ! p) = LoopBegin"
    by (auto simp: skipLoop_def split: if_splits)
  with assms have "skipLoop_loop prog (p + 1) (Suc 0) = Inr m"
    by (simp add: skipLoop_unfold)
  then show ?thesis by (intro skipLoop_loop_stops_at_operator [of "Suc 0" prog "p + 1"]) simp_all
qed


lemma world_moved: "world (moved prog s) = world s"
  by (simp add: moved_def)

lemma it_moved: "it (moved prog s) = newpos prog (it s)"
  by (simp add: moved_def)

lemma step_comment:
  assumes "it s < length prog" and "\<not> isCommand (command (prog ! it s))"
  shows "step prog s = Inr (s\<lparr>it := it s + 1\<rparr>)"
    and "moved prog (s\<lparr>it := it s + 1\<rparr>) = moved prog s"
proof -
  from assms(2) have "command (prog ! it s) \<noteq> LoopBegin" "command (prog ! it s) \<noteq> LoopEnd"
    by (auto simp: isCommand_def)
  with assms show "step prog s = Inr (s\<lparr>it := it s + 1\<rparr>)"
    by (simp add: step_def interpret_Command_comment)
  show "moved prog (s\<lparr>it := it s + 1\<rparr>) = moved prog s"
    using newpos_Suc_comment [OF assms] by (simp add: moved_def)
qed

lemma step_operator:
  assumes "it s < length prog" and "isCommand (command (prog ! it s))"
  shows "step (without_comments prog) (moved prog s)
           = map_sum (\<lambda>e. e) (moved prog) (step prog s)"
proof -
  let ?S = "without_comments prog"
  from nth_newpos [OF assms]
  have n: "newpos prog (it s) < length ?S" and nth: "?S ! newpos prog (it s) = prog ! it s"
    by simp_all
  note suc = newpos_Suc_operator [OF assms]
  consider (openz) "command (prog ! it s) = LoopBegin"
    | (close) "command (prog ! it s) = LoopEnd"
    | (other) "command (prog ! it s) \<noteq> LoopBegin" "command (prog ! it s) \<noteq> LoopEnd"
    by blast
  then show ?thesis
  proof cases
    case openz
    show ?thesis
    proof (cases "deref (ptr (world s))")
      case (Inl e)
      with openz assms(1) n nth show ?thesis by (simp add: step_def moved_def)
    next
      case (Inr v)
      show ?thesis
      proof (cases "v = 0")
        case False
        with Inr openz assms(1) n nth suc show ?thesis by (simp add: step_def moved_def)
      next
        case True
        note sk = skipLoop_without_comments [OF assms(1) openz]
        show ?thesis
        proof (cases "skipLoop prog (it s)")
          case (Inl e)
          with sk True Inr openz assms(1) n nth show ?thesis by (simp add: step_def moved_def)
        next
          case m: (Inr m)
          from skipLoop_stops_at_operator [OF m]
          have "newpos prog (Suc m) = Suc (newpos prog m)" by (simp add: newpos_Suc_operator)
          with m sk True Inr openz assms(1) n nth show ?thesis by (simp add: step_def moved_def)
        qed
      qed
    qed
  next
    case close
    with assms(1) n nth show ?thesis
      by (cases "loopPos s") (simp_all add: step_def moved_def)
  next
    case other
    show ?thesis
    proof (cases "interpret_Command (prog ! it s) (world s)")
      case (Inl e)
      with other assms(1) n nth show ?thesis by (simp add: step_def moved_def)
    next
      case (Inr bw)
      with other assms(1) n nth suc show ?thesis
        by (cases bw) (simp add: step_def moved_def)
    qed
  qed
qed

lemma step_in_range:
  assumes "in_range prog s" and "step prog s = Inr s'"
  shows "in_range prog s'"
proof -
  from assms(2) have i: "it s < length prog" by (auto simp: step_def split: if_splits)
  have sk: "m < length prog" if "skipLoop prog (it s) = Inr m" for m
    using skipLoop_stops_at_operator [OF that] by simp
  show ?thesis
    using assms i sk unfolding step_def in_range_def
    by (auto split: if_splits sum.splits list.splits prod.splits simp: Suc_le_eq)
qed

lemma halted_moved_iff:
  "it s < length prog \<Longrightarrow> isCommand (command (prog ! it s))
   \<Longrightarrow> it (moved prog s) \<noteq> length (without_comments prog)"
  using nth_newpos [of "it s" prog] by (simp add: moved_def)


lemma run_halted: "it s = length prog \<Longrightarrow> run n prog s = Some (Inr s)"
  by (cases n) simp_all

lemma run_without_comments_forward:
  "in_range prog s \<Longrightarrow> run n prog s = Some r \<Longrightarrow>
   \<exists>m\<le>n. run m (without_comments prog) (moved prog s) = Some (map_sum (\<lambda>e. e) (moved prog) r)"
proof (induction n arbitrary: s)
  case 0
  then have h: "it s = length prog" and r: "r = Inr s" by (auto split: if_splits)
  then have "it (moved prog s) = length (without_comments prog)"
    by (simp add: it_moved newpos_end)
  with r show ?case by (simp add: run_halted)
next
  case (Suc n)
  let ?S = "without_comments prog"
  show ?case
  proof (cases "it s = length prog")
    case True
    with Suc.prems have r: "r = Inr s" by simp
    from True have "it (moved prog s) = length ?S" by (simp add: it_moved newpos_end)
    then have "run 0 ?S (moved prog s) = Some (Inr (moved prog s))" by simp
    with r show ?thesis by (intro exI [of _ 0]) simp
  next
    case False
    with Suc.prems(1) have i: "it s < length prog" by (simp add: in_range_def)
    show ?thesis
    proof (cases "isCommand (command (prog ! it s))")
      case c: False
      note sc = step_comment [OF i c]
      from sc(1) Suc.prems(1) have "in_range prog (s\<lparr>it := it s + 1\<rparr>)" by (rule step_in_range [rotated])
      moreover from Suc.prems(2) False sc(1) have "run n prog (s\<lparr>it := it s + 1\<rparr>) = Some r" by simp
      ultimately obtain m where "m \<le> n"
        "run m ?S (moved prog (s\<lparr>it := it s + 1\<rparr>)) = Some (map_sum (\<lambda>e. e) (moved prog) r)"
        using Suc.IH by blast
      with sc(2) show ?thesis by (intro exI [of _ m]) simp
    next
      case True
      note so = step_operator [OF i True]
      note nh = halted_moved_iff [OF i True]
      show ?thesis
      proof (cases "step prog s")
        case (Inl e)
        with Suc.prems(2) False have "r = Inl e" by simp
        moreover from so Inl nh have "run (Suc 0) ?S (moved prog s) = Some (Inl e)" by simp
        ultimately show ?thesis by (intro exI [of _ "Suc 0"]) simp
      next
        case (Inr s')
        with Suc.prems(1) have "in_range prog s'" by (rule step_in_range)
        moreover from Suc.prems(2) False Inr have "run n prog s' = Some r" by simp
        ultimately obtain m where m: "m \<le> n"
          "run m ?S (moved prog s') = Some (map_sum (\<lambda>e. e) (moved prog) r)"
          using Suc.IH by blast
        from so Inr nh have "run (Suc m) ?S (moved prog s) = run m ?S (moved prog s')" by simp
        with m show ?thesis by (intro exI [of _ "Suc m"]) simp
      qed
    qed
  qed
qed

lemma run_through_comments:
  "it s \<le> length prog \<Longrightarrow>
   \<exists>k j. j \<le> length prog \<and> (j < length prog \<longrightarrow> isCommand (command (prog ! j)))
        \<and> moved prog (s\<lparr>it := j\<rparr>) = moved prog s
        \<and> (\<forall>n. run (k + n) prog s = run n prog (s\<lparr>it := j\<rparr>))"
proof (induction "length prog - it s" arbitrary: s)
  case 0
  then have e: "it s = length prog" by simp
  have same: "s\<lparr>it := it s\<rparr> = s" by simp
  have "it s \<le> length prog \<and> (it s < length prog \<longrightarrow> isCommand (command (prog ! it s)))
        \<and> moved prog (s\<lparr>it := it s\<rparr>) = moved prog s
        \<and> (\<forall>n. run (0 + n) prog s = run n prog (s\<lparr>it := it s\<rparr>))"
    unfolding same using e by simp
  then show ?case by blast
next
  case (Suc d)
  then have i: "it s < length prog" by simp
  show ?case
  proof (cases "isCommand (command (prog ! it s))")
    case True
    have same: "s\<lparr>it := it s\<rparr> = s" by simp
    have "it s \<le> length prog \<and> (it s < length prog \<longrightarrow> isCommand (command (prog ! it s)))
          \<and> moved prog (s\<lparr>it := it s\<rparr>) = moved prog s
          \<and> (\<forall>n. run (0 + n) prog s = run n prog (s\<lparr>it := it s\<rparr>))"
      unfolding same using i True by simp
    then show ?thesis by blast
  next
    case False
    note sc = step_comment [OF i False]
    let ?s = "s\<lparr>it := it s + 1\<rparr>"
    have "d = length prog - it ?s" "it ?s \<le> length prog" using Suc.hyps(2) i by simp_all
    from Suc.hyps(1) [OF this]
    obtain k j where kj: "j \<le> length prog" "j < length prog \<longrightarrow> isCommand (command (prog ! j))"
      "moved prog (?s\<lparr>it := j\<rparr>) = moved prog ?s"
      "\<forall>n. run (k + n) prog ?s = run n prog (?s\<lparr>it := j\<rparr>)"
      by blast
    have "run (Suc k + n) prog s = run n prog (s\<lparr>it := j\<rparr>)" for n
      using kj(4) sc(1) i by simp
    moreover have "moved prog (s\<lparr>it := j\<rparr>) = moved prog s" using kj(3) sc(2) by simp
    ultimately show ?thesis using kj(1,2) by (rule_tac x = "Suc k" in exI, rule_tac x = j in exI) blast
  qed
qed

lemma run_without_comments_backward:
  "in_range prog s \<Longrightarrow> run m (without_comments prog) (moved prog s) = Some r' \<Longrightarrow>
   \<exists>n r. run n prog s = Some r \<and> r' = map_sum (\<lambda>e. e) (moved prog) r"
proof (induction m arbitrary: s)
  case 0
  let ?S = "without_comments prog"
  from "0.prems"(1) have "it s \<le> length prog" by (simp add: in_range_def)
  from run_through_comments [OF this]
  obtain k j where kj: "j \<le> length prog" "j < length prog \<longrightarrow> isCommand (command (prog ! j))"
    "moved prog (s\<lparr>it := j\<rparr>) = moved prog s"
    "\<forall>n. run (k + n) prog s = run n prog (s\<lparr>it := j\<rparr>)"
    by blast
  let ?s = "s\<lparr>it := j\<rparr>"
  from "0.prems"(2) have h: "it (moved prog s) = length ?S" and r': "r' = Inr (moved prog s)"
    by (auto split: if_splits)
  have "j = length prog"
  proof (rule ccontr)
    assume "j \<noteq> length prog"
    with kj(1,2) have "it ?s < length prog" "isCommand (command (prog ! it ?s))" by simp_all
    from halted_moved_iff [OF this] kj(3) h show False by simp
  qed
  then have "run 0 prog ?s = Some (Inr ?s)" by simp
  with kj(4) have "run (k + 0) prog s = Some (Inr ?s)" by metis
  with r' kj(3) show ?case by (intro exI [of _ "k + 0"] exI [of _ "Inr ?s"]) simp
next
  case (Suc m)
  let ?S = "without_comments prog"
  from Suc.prems(1) have "it s \<le> length prog" by (simp add: in_range_def)
  from run_through_comments [OF this]
  obtain k j where kj: "j \<le> length prog" "j < length prog \<longrightarrow> isCommand (command (prog ! j))"
    "moved prog (s\<lparr>it := j\<rparr>) = moved prog s"
    "\<forall>n. run (k + n) prog s = run n prog (s\<lparr>it := j\<rparr>)"
    by blast
  let ?s = "s\<lparr>it := j\<rparr>"
  have ir: "in_range prog ?s" using Suc.prems(1) kj(1) by (simp add: in_range_def)
  show ?case
  proof (cases "j = length prog")
    case True
    then have "run 0 prog ?s = Some (Inr ?s)" by simp
    with kj(4) have 1: "run (k + 0) prog s = Some (Inr ?s)" by metis
    from True have "it (moved prog ?s) = length ?S" by (simp add: it_moved newpos_end)
    with kj(3) Suc.prems(2) have "r' = Inr (moved prog ?s)" by simp
    with 1 show ?thesis by (intro exI [of _ "k + 0"] exI [of _ "Inr ?s"]) simp
  next
    case False
    with kj(1,2) have i: "it ?s < length prog" and c: "isCommand (command (prog ! it ?s))"
      by simp_all
    note so = step_operator [OF i c]
    note nh = halted_moved_iff [OF i c]
    have ne: "it ?s \<noteq> length prog" using i by simp
    show ?thesis
    proof (cases "step prog ?s")
      case (Inl e)
      with so nh Suc.prems(2) kj(3) have "r' = Inl e" by simp
      moreover from Inl ne have "run (Suc 0) prog ?s = Some (Inl e)" by simp
      with kj(4) have "run (k + Suc 0) prog s = Some (Inl e)" by metis
      ultimately show ?thesis by (intro exI [of _ "k + Suc 0"] exI [of _ "Inl e"]) simp
    next
      case (Inr s')
      with ir have "in_range prog s'" by (rule step_in_range)
      moreover from so nh Inr Suc.prems(2) kj(3)
      have "run m ?S (moved prog s') = Some r'" by simp
      ultimately obtain n r where nr: "run n prog s' = Some r"
        "r' = map_sum (\<lambda>e. e) (moved prog) r"
        using Suc.IH by blast
      from Inr ne nr(1) have "run (Suc n) prog ?s = Some r" by simp
      with kj(4) have "run (k + Suc n) prog s = Some r" by metis
      with nr(2) show ?thesis by blast
    qed
  qed
qed


lemma moved_initial: "moved prog (initial input) = initial input"
  by (simp add: moved_def initial_def newpos_0)

lemma in_range_initial: "in_range prog (initial input)"
  by (simp add: in_range_def initial_def)

lemma outcome_moved:
  "outcome (Some (map_sum (\<lambda>e. e) (moved prog) r)) = outcome (Some r)"
  by (cases r) (simp_all add: outcome_def world_moved)

lemma outcome_Some: "outcome x = Some obs \<Longrightarrow> \<exists>r. x = Some r"
  by (cases x) (simp_all add: outcome_def)

section \<open>The claims of the specification\<close>

text \<open>
  Claim C1. The claim is that compilation emits no Instruction for a comment byte, so that
  a source without operator characters compiles to the empty Program and its execution
  halts at once. In \<open>generateSourceCode\<close> the \<open>emplace_back\<close> follows the three branches
  and also runs after the comment branch: the one-byte source \<open>a\<close> compiles to the
  one-Command Program \<open>[Command a 0]\<close>. The loop of \<open>main\<close> does not stop before its first
  pass on it, and stops after that pass with nothing written.
\<close>

theorem C1_comment_byte_is_emitted:
  "compile ''a'' = [Command (CHR ''a'') 0]
   \<and> compile ''a'' \<noteq> []
   \<and> main 0 ''a'' [] = None
   \<and> main 1 ''a'' [] = Some (Inr ((initial []) \<lparr>it := 1\<rparr>))"
  by (simp add: main_def compile_eval initial_def step_def interpret_Command_def)

text \<open>
  Claim C2. Take a source \<open>pre @ c # body @ post\<close> in which \<open>c\<close> is one of the six operator
  characters that are not loop characters, \<open>body\<close> holds only \<open>c\<close> and comment bytes, the
  last operator character of \<open>pre\<close> (if any) is not \<open>c\<close>, and \<open>post\<close> is empty or starts with
  an operator character other than \<open>c\<close>: so \<open>c # body\<close> is a whole run of \<open>c\<close> with its
  interleaved comments. Compilation emits for it exactly one Command, of character \<open>c\<close>
  and with the number of \<open>c\<close> in the run as count, between what \<open>pre\<close> and what \<open>post\<close>
  compile to. A loop character \<open>b\<close> anywhere in a source compiles to its own Command with
  count 1, between what the text before it and the text after it compile to. Both hold
  for \<open>generateSourceCode\<close> and for \<open>compile\<close>, which reads the text as \<open>main\<close> does.
\<close>

theorem C2_runs_merge_and_brackets_do_not:
  "(isCommand c \<and> \<not> isLoopCommand c
      \<and> (\<forall>x\<in>set body. x = c \<or> \<not> isCommand x)
      \<and> (filter isCommand pre = [] \<or> last (filter isCommand pre) \<noteq> c)
      \<and> (post = [] \<or> isCommand (hd post) \<and> hd post \<noteq> c)
    \<longrightarrow> generateSourceCode (pre @ c # body @ post)
          = generateSourceCode pre @ Command c (count_list (c # body) c) # generateSourceCode post
      \<and> compile (pre @ c # body @ post)
          = compile pre @ Command c (count_list (c # body) c) # compile post)
   \<and> (isLoopCommand b
    \<longrightarrow> generateSourceCode (pre @ b # post)
          = generateSourceCode pre @ Command b 1 # generateSourceCode post
      \<and> compile (pre @ b # post) = compile pre @ Command b 1 # compile post)"
proof (intro conjI impI)
  assume a: "isCommand c \<and> \<not> isLoopCommand c
      \<and> (\<forall>x\<in>set body. x = c \<or> \<not> isCommand x)
      \<and> (filter isCommand pre = [] \<or> last (filter isCommand pre) \<noteq> c)
      \<and> (post = [] \<or> isCommand (hd post) \<and> hd post \<noteq> c)"
  have gen: "generateSourceCode (p @ c # bd @ q)
          = generateSourceCode p @ Command c (count_list (c # bd) c) # generateSourceCode q"
    if "\<forall>x\<in>set bd. x = c \<or> \<not> isCommand x"
      and "filter isCommand p = [] \<or> last (filter isCommand p) \<noteq> c"
      and "q = [] \<or> isCommand (hd q) \<and> hd q \<noteq> c" for p bd q
  proof -
    have "generateSourceCode (p @ c # bd @ q)
            = generateSourceCode p @ generateSourceCode (c # bd @ q)"
      using a that(2) by (intro generateSourceCode_append) simp_all
    also have "generateSourceCode (c # bd @ q)
            = Command c (Suc (count_list bd c)) # generateSourceCode q"
      using a that(1,3) by (intro generateSourceCode_whole_run) simp_all
    finally show ?thesis by simp
  qed
  show "generateSourceCode (pre @ c # body @ post)
          = generateSourceCode pre @ Command c (count_list (c # body) c) # generateSourceCode post"
    using a by (intro gen) simp_all
  have nsp: "\<not> isspace c" using a isspace_not_isCommand by blast
  have "compile (pre @ c # body @ post)
          = generateSourceCode (istream_chars pre @ c # istream_chars body @ istream_chars post)"
    using nsp by (simp add: compile_def istream_chars_def)
  also have "\<dots> = generateSourceCode (istream_chars pre)
          @ Command c (count_list (c # istream_chars body) c) # generateSourceCode (istream_chars post)"
  proof (intro gen)
    show "\<forall>x\<in>set (istream_chars body). x = c \<or> \<not> isCommand x"
      using a by (simp add: istream_chars_def)
    show "filter isCommand (istream_chars pre) = [] \<or> last (filter isCommand (istream_chars pre)) \<noteq> c"
      using a by (simp add: filter_isCommand_istream_chars)
    show "istream_chars post = [] \<or> isCommand (hd (istream_chars post)) \<and> hd (istream_chars post) \<noteq> c"
      using a by (intro run_maximal_istream_chars) simp
  qed
  finally have "compile (pre @ c # body @ post) = generateSourceCode (istream_chars pre)
          @ Command c (count_list (c # istream_chars body) c) # generateSourceCode (istream_chars post)" .
  moreover have "count_list (istream_chars body) c = count_list body c"
    using nsp by (induction body) (simp_all add: istream_chars_def)
  ultimately show "compile (pre @ c # body @ post)
          = compile pre @ Command c (count_list (c # body) c) # compile post"
    by (simp add: compile_def)
next
  assume b: "isLoopCommand b"
  then have cmd: "isCommand b" by (rule isLoopCommand_isCommand)
  have gen: "generateSourceCode (p @ b # q) = generateSourceCode p @ Command b 1 # generateSourceCode q"
    for p q
    using generateSourceCode_append [of b p q] b cmd by (simp add: generateSourceCode_loop)
  show "generateSourceCode (pre @ b # post)
          = generateSourceCode pre @ Command b 1 # generateSourceCode post"
    by (rule gen)
  have "\<not> isspace b" using cmd isspace_not_isCommand by blast
  then have "compile (pre @ b # post) = generateSourceCode (istream_chars pre @ b # istream_chars post)"
    by (simp add: compile_def istream_chars_def)
  then show "compile (pre @ b # post) = compile pre @ Command b 1 # compile post"
    by (simp add: gen compile_def)
qed

theorem C2_witness:
  "compile (''[>'' @ CellValIncr # '' a+x+'' @ ''-+'')
     = compile ''[>'' @ Command CellValIncr 3 # compile ''-+''
   \<and> compile (''+['' @ LoopBegin # ''[+'')
     = compile ''+['' @ Command LoopBegin 1 # compile ''[+''"
  using C2_runs_merge_and_brackets_do_not [of CellValIncr "'' a+x+''" "''[>''" "''-+''" LoopBegin]
    C2_runs_merge_and_brackets_do_not [of CellValIncr "[]" "''+[''" "''[+''" LoopBegin]
  by (simp add: isCommand_def isLoopCommand_def)

text \<open>
  Claim C3. Let the Program be \<open>pre @ b # body @ e # post\<close>, with \<open>b\<close> a \<open>LoopBegin\<close>, \<open>e\<close> a
  \<open>LoopEnd\<close> and \<open>body\<close> balanced, so that \<open>e\<close> is the \<open>LoopEnd\<close> matching \<open>b\<close>; a
  \<open>std::vector\<close> holds fewer than \<open>2 ^ 64\<close> Commands. Then \<open>skipLoop\<close>, called on the position
  of \<open>b\<close>, returns the position of \<open>e\<close>; and a pass of the loop of \<open>main\<close> that finds \<open>it\<close> on
  \<open>b\<close> with the current cell equal to 0 leaves \<open>it\<close> one past the position of \<open>e\<close> and
  changes nothing else.
\<close>

theorem C3_skipLoop_finds_matching_LoopEnd:
  assumes "prog = pre @ b # body @ e # post"
    and "command b = LoopBegin" and "command e = LoopEnd" and "balanced body"
    and "length prog < 2 ^ 64"
  shows "skipLoop prog (length pre) = Inr (length pre + 1 + length body)
     \<and> prog ! (length pre + 1 + length body) = e
     \<and> (it s = length pre \<and> deref (ptr (world s)) = Inr 0
          \<longrightarrow> step prog s = Inr (s\<lparr>it := length pre + 1 + length body + 1\<rparr>))"
proof -
  have m: "skipLoop prog (length pre) = Inr (length pre + 1 + length body)"
    using skipLoop_match [OF assms(2,3,4)] assms(1,5) by simp
  have e: "prog ! (length pre + 1 + length body) = e"
    using assms(1) by (simp add: nth_append)
  have b: "prog ! length pre = b" "length pre < length prog"
    using assms(1) by simp_all
  show ?thesis using m e b assms(2) by (simp add: step_def)
qed

theorem C3_witness:
  "(let prog = [Command CellValIncr 1, Command LoopBegin 1, Command LoopBegin 1,
                Command CellValDecr 1, Command LoopEnd 1, Command PointerIncr 2,
                Command LoopEnd 1, Command Cout 1];
        w = \<lparr>ptr = Pointer_init, cin = \<lparr>bytes = [], failed = False\<rparr>, cout = []\<rparr>
    in balanced [Command LoopBegin 1, Command CellValDecr 1, Command LoopEnd 1,
                 Command PointerIncr 2]
     \<and> length prog < 2 ^ 64
     \<and> skipLoop prog 1 = Inr 6
     \<and> step prog \<lparr>it = 1, loopPos = [], world = w\<rparr> = Inr \<lparr>it = 7, loopPos = [], world = w\<rparr>)"
proof -
  have bal: "balanced [Command LoopBegin 1, Command CellValDecr 1, Command LoopEnd 1,
                       Command PointerIncr 2]"
    using balanced_loop [of "Command LoopBegin 1" "Command LoopEnd 1"
        "[Command CellValDecr 1]" "[Command PointerIncr 2]"]
    by (simp add: balanced.intros)
  show ?thesis
    using bal C3_skipLoop_finds_matching_LoopEnd [of _ "[Command CellValIncr 1]"
        "Command LoopBegin 1"
        "[Command LoopBegin 1, Command CellValDecr 1, Command LoopEnd 1, Command PointerIncr 2]"
        "Command LoopEnd 1" "[Command Cout 1]"
        "\<lparr>it = 1, loopPos = [],
          world = \<lparr>ptr = Pointer_init, cin = \<lparr>bytes = [], failed = False\<rparr>, cout = []\<rparr>\<rparr>",
        OF refl]
    by (simp add: Pointer_init_def deref_def)
qed

text \<open>
  Claim C4. A pass of the loop of \<open>main\<close> that finds \<open>it\<close> on a \<open>LoopEnd\<close> with a stack whose
  top is \<open>pos\<close> pops the stack and sets \<open>it\<close> to \<open>pos\<close>, with no increment and no other
  change; if \<open>pos\<close> holds a \<open>LoopBegin\<close> and the current cell is not 0, the next pass tests
  the cell there, pushes \<open>pos\<close> back and sets \<open>it\<close> to \<open>pos + 1\<close>.
\<close>

theorem C4_LoopEnd_returns_to_LoopBegin:
  assumes "it s < length prog"
    and "command (prog ! it s) = LoopEnd"
    and "loopPos s = pos # rest"
  shows "step prog s = Inr (s\<lparr>it := pos, loopPos := rest\<rparr>)
     \<and> (pos < length prog \<and> command (prog ! pos) = LoopBegin
          \<and> deref (ptr (world s)) = Inr v \<and> v \<noteq> 0
        \<longrightarrow> step prog (s\<lparr>it := pos, loopPos := rest\<rparr>)
              = Inr (s\<lparr>it := pos + 1, loopPos := pos # rest\<rparr>))"
  using assms by (simp add: step_def)

theorem C4_witness:
  "(let prog = [Command CellValIncr 2, Command LoopBegin 1, Command CellValDecr 1,
                Command LoopEnd 1];
        w = \<lparr>ptr = \<lparr>mem = [1], index = 0\<rparr>, cin = \<lparr>bytes = [], failed = False\<rparr>, cout = []\<rparr>
    in command (prog ! 3) = LoopEnd \<and> command (prog ! 1) = LoopBegin
     \<and> deref (ptr w) = Inr 1
     \<and> step prog \<lparr>it = 3, loopPos = [1], world = w\<rparr> = Inr \<lparr>it = 1, loopPos = [], world = w\<rparr>
     \<and> step prog \<lparr>it = 1, loopPos = [], world = w\<rparr> = Inr \<lparr>it = 2, loopPos = [1], world = w\<rparr>)"
  using C4_LoopEnd_returns_to_LoopBegin [of
      "\<lparr>it = 3, loopPos = [1],
        world = \<lparr>ptr = \<lparr>mem = [1], index = 0\<rparr>, cin = \<lparr>bytes = [], failed = False\<rparr>, cout = []\<rparr>\<rparr>"
      "[Command CellValIncr 2, Command LoopBegin 1, Command CellValDecr 1, Command LoopEnd 1]"
      1 "[]" 1]
  by (simp add: deref_def)

text \<open>
  Claim C5. The source text \<open>++++++++[>++++++++<-]>+.\<close>, compiled and run from the initial
  state with no input, halts (after 53 passes of the loop of \<open>main\<close>, and not before) without
  error, and what it has written is the single byte 65.
\<close>

theorem C5_program_writes_byte_65:
  "main 53 ''++++++++[>++++++++<-]>+.'' [] =
     Some (Inr \<lparr>it = 10, loopPos = [],
                 world = \<lparr>ptr = \<lparr>mem = [0, 65], index = 1\<rparr>,
                           cin = \<lparr>bytes = [], failed = False\<rparr>, cout = [65]\<rparr>\<rparr>)
   \<and> main 52 ''++++++++[>++++++++<-]>+.'' [] = None"
  by (simp add: main_def compile_eval run_eval run_numeral)

text \<open>
  Claim C6. On a tape whose current cell holds \<open>v\<close>, \<open>interpret\<close> of an Increment Command
  with count \<open>n\<close> returns true without error and leaves the cursor where it was and the cell
  at \<open>(v + n) mod 256\<close>; of a Decrement Command, at \<open>(v - n) mod 256\<close>. One increment of 255
  gives 0 and one decrement of 0 gives 255.
\<close>

theorem C6_cell_arithmetic_wraps:
  "(deref (ptr w) = Inr v \<longrightarrow>
      (\<exists>p'. interpret_Command (Command CellValIncr n) w = Inr (True, w\<lparr>ptr := p'\<rparr>)
            \<and> index p' = index (ptr w)
            \<and> (\<exists>v'. deref p' = Inr v' \<and> unat v' = (unat v + n) mod 256))
    \<and> (\<exists>p'. interpret_Command (Command CellValDecr n) w = Inr (True, w\<lparr>ptr := p'\<rparr>)
            \<and> index p' = index (ptr w)
            \<and> (\<exists>v'. deref p' = Inr v' \<and> uint v' = (uint v - int n) mod 256)))
   \<and> operation_plus 255 1 = 0 \<and> operation_minus 0 1 = 255"
proof (intro conjI impI)
  assume d: "deref (ptr w) = Inr v"
  show "\<exists>p'. interpret_Command (Command CellValIncr n) w = Inr (True, w\<lparr>ptr := p'\<rparr>)
            \<and> index p' = index (ptr w)
            \<and> (\<exists>v'. deref p' = Inr v' \<and> unat v' = (unat v + n) mod 256)"
    using d deref_assign [OF d] unat_operation_plus [of v n]
    by (intro exI [of _ "assign (ptr w) (operation_plus v n)"])
       (simp add: interpret_Command_def assign_def)
  show "\<exists>p'. interpret_Command (Command CellValDecr n) w = Inr (True, w\<lparr>ptr := p'\<rparr>)
            \<and> index p' = index (ptr w)
            \<and> (\<exists>v'. deref p' = Inr v' \<and> uint v' = (uint v - int n) mod 256)"
    using d deref_assign [OF d] uint_operation_minus [of v n]
    by (intro exI [of _ "assign (ptr w) (operation_minus v n)"])
       (simp add: interpret_Command_def assign_def)
next
  show "operation_plus 255 1 = 0" by (simp add: operation_plus_def)
  show "operation_minus 0 1 = 255" by (simp add: operation_minus_def)
qed

theorem C6_witness:
  "(let w = \<lparr>ptr = \<lparr>mem = [7, 250], index = 1\<rparr>, cin = \<lparr>bytes = [], failed = False\<rparr>, cout = []\<rparr>
    in deref (ptr w) = Inr 250
     \<and> (\<exists>p'. interpret_Command (Command CellValIncr 10) w = Inr (True, w\<lparr>ptr := p'\<rparr>)
            \<and> index p' = 1 \<and> (\<exists>v'. deref p' = Inr v' \<and> unat v' = 4))
     \<and> (\<exists>p'. interpret_Command (Command CellValDecr 300) w = Inr (True, w\<lparr>ptr := p'\<rparr>)
            \<and> index p' = 1 \<and> (\<exists>v'. deref p' = Inr v' \<and> uint v' = 206)))"
  using C6_cell_arithmetic_wraps [of
      "\<lparr>ptr = \<lparr>mem = [7, 250], index = 1\<rparr>, cin = \<lparr>bytes = [], failed = False\<rparr>, cout = []\<rparr>"
      250 10]
    C6_cell_arithmetic_wraps [of
      "\<lparr>ptr = \<lparr>mem = [7, 250], index = 1\<rparr>, cin = \<lparr>bytes = [], failed = False\<rparr>, cout = []\<rparr>"
      250 300]
  by (simp add: deref_def)

text \<open>
  Claim C7. The claim is that every Instruction of a compiled Program has a count of at
  least 1. The source \<open>[x]\<close> compiles to three Commands, and the second, emitted for the
  comment byte \<open>x\<close>, has count 0.
\<close>

theorem C7_comment_Command_has_count_0:
  "compile ''[x]'' = [Command LoopBegin 1, Command (CHR ''x'') 0, Command LoopEnd 1]
   \<and> count (compile ''[x]'' ! 1) = 0"
  by (simp add: compile_eval)

text \<open>
  Claim C8. The claim is that compiling the canonical character stream of a compiled
  sequence gives the same sequence. The source \<open>#+\<close> compiles to a Command of count 0 for
  the comment byte \<open>#\<close> followed by one Increment; the canonical stream of that sequence is
  \<open>+\<close>, which compiles to the Increment alone.
\<close>

theorem C8_recompiling_loses_comment_Commands:
  "compile ''#+'' = [Command (CHR ''#'') 0, Command CellValIncr 1]
   \<and> serialize (compile ''#+'') = ''+''
   \<and> compile (serialize (compile ''#+'')) = [Command CellValIncr 1]
   \<and> compile (serialize (compile ''#+'')) \<noteq> compile ''#+''"
  by (simp add: compile_eval serialize_def)

text \<open>
  Claim C9. When no byte of input is left and \<open>it\<close> is on an Input Command with count \<open>n\<close>,
  \<open>interpret\<close> returns true without error, the tape (the cell values and the cursor) and the
  output are as before, the input stream still has no byte, and the pass of the loop of
  \<open>main\<close> moves \<open>it\<close> forward by 1.
\<close>

theorem C9_Input_at_end_of_input:
  assumes "bytes (cin (world s)) = []"
    and "deref (ptr (world s)) = Inr v"
    and "it s < length prog"
    and "prog ! it s = Command Cin n"
  shows "\<exists>c'. bytes c' = []
           \<and> interpret_Command (Command Cin n) (world s) = Inr (True, (world s)\<lparr>cin := c'\<rparr>)
           \<and> step prog s = Inr (s\<lparr>it := it s + 1, world := (world s)\<lparr>cin := c'\<rparr>\<rparr>)"
proof -
  from cin_loop_exhausted [OF assms(1,2), of n]
  obtain c' where c': "cin_loop n (world s) = Inr ((world s)\<lparr>cin := c'\<rparr>)" "bytes c' = []"
    by blast
  have i: "interpret_Command (Command Cin n) (world s) = Inr (True, (world s)\<lparr>cin := c'\<rparr>)"
    using c' by (simp add: interpret_Command_def)
  have "step prog s = Inr (s\<lparr>it := it s + 1, world := (world s)\<lparr>cin := c'\<rparr>\<rparr>)"
    using assms(3,4) i by (simp add: step_def)
  with i c'(2) show ?thesis by blast
qed

theorem C9_witness:
  "(let w = \<lparr>ptr = \<lparr>mem = [66], index = 0\<rparr>, cin = \<lparr>bytes = [], failed = False\<rparr>, cout = []\<rparr>;
        s = \<lparr>it = 0, loopPos = [], world = w\<rparr>
    in bytes (cin (world s)) = [] \<and> deref (ptr (world s)) = Inr 66
     \<and> (\<exists>c'. bytes c' = []
           \<and> interpret_Command (Command Cin 2) w = Inr (True, w\<lparr>cin := c'\<rparr>)
           \<and> step [Command Cin 2] s = Inr (s\<lparr>it := 1, world := w\<lparr>cin := c'\<rparr>\<rparr>)))"
  using C9_Input_at_end_of_input [of
      "\<lparr>it = 0, loopPos = [],
        world = \<lparr>ptr = \<lparr>mem = [66], index = 0\<rparr>, cin = \<lparr>bytes = [], failed = False\<rparr>, cout = []\<rparr>\<rparr>"
      66 "[Command Cin 2]" 2]
  by (simp add: deref_def)

text \<open>
  Claim C10. For a Command whose character is none of the eight operator characters,
  \<open>interpret\<close> returns false and leaves the world (tape cells, cursor, input stream, output)
  as it was, and the pass of the loop of \<open>main\<close> over it only moves \<open>it\<close> forward by 1.
  Consequently a Program and the same Program without its comment Commands, run from the
  initial state on the same input, end in the same way: one halts or stops on an error if
  and only if the other does, with the same error or the same final world.
\<close>

theorem C10_comment_Commands_have_no_effect:
  "(\<not> isCommand (command com) \<longrightarrow> interpret_Command com w = Inr (False, w))
   \<and> (it s < length prog \<and> \<not> isCommand (command (prog ! it s))
        \<longrightarrow> step prog s = Inr (s\<lparr>it := it s + 1\<rparr>))
   \<and> ((\<exists>n. outcome (run n prog (initial input)) = Some obs)
        = (\<exists>m. outcome (run m (without_comments prog) (initial input)) = Some obs))"
proof (intro conjI impI)
  assume "\<not> isCommand (command com)"
  then show "interpret_Command com w = Inr (False, w)" by (rule interpret_Command_comment)
next
  assume "it s < length prog \<and> \<not> isCommand (command (prog ! it s))"
  then show "step prog s = Inr (s\<lparr>it := it s + 1\<rparr>)" by (simp add: step_comment(1))
next
  let ?S = "without_comments prog"
  let ?i = "initial input"
  show "(\<exists>n. outcome (run n prog ?i) = Some obs) = (\<exists>m. outcome (run m ?S ?i) = Some obs)"
  proof
    assume "\<exists>n. outcome (run n prog ?i) = Some obs"
    then obtain n r where r: "run n prog ?i = Some r" and o: "outcome (Some r) = Some obs"
      using outcome_Some by metis
    from run_without_comments_forward [OF in_range_initial r]
    obtain m where "run m ?S ?i = Some (map_sum (\<lambda>e. e) (moved prog) r)"
      by (auto simp: moved_initial)
    with o have "outcome (run m ?S ?i) = Some obs" by (simp add: outcome_moved)
    then show "\<exists>m. outcome (run m ?S ?i) = Some obs" ..
  next
    assume "\<exists>m. outcome (run m ?S ?i) = Some obs"
    then obtain m r' where r': "run m ?S (moved prog ?i) = Some r'"
      and o: "outcome (Some r') = Some obs"
      using outcome_Some unfolding moved_initial by metis
    from run_without_comments_backward [OF in_range_initial r']
    obtain n r where "run n prog ?i = Some r" "r' = map_sum (\<lambda>e. e) (moved prog) r"
      by blast
    with o have "outcome (run n prog ?i) = Some obs" by (simp add: outcome_moved)
    then show "\<exists>n. outcome (run n prog ?i) = Some obs" ..
  qed
qed

theorem C10_witness:
  "(let w = \<lparr>ptr = \<lparr>mem = [7], index = 0\<rparr>, cin = \<lparr>bytes = [9], failed = False\<rparr>, cout = [3]\<rparr>;
        prog = [Command (CHR ''a'') 0, Command CellValIncr 2, Command (CHR ''b'') 0, Command Cout 1];
        obs = Inr \<lparr>ptr = \<lparr>mem = [2], index = 0\<rparr>, cin = \<lparr>bytes = [], failed = False\<rparr>, cout = [2]\<rparr>
    in \<not> isCommand (command (Command (CHR ''a'') 0))
     \<and> interpret_Command (Command (CHR ''a'') 0) w = Inr (False, w)
     \<and> step prog (initial []) = Inr ((initial []) \<lparr>it := 1\<rparr>)
     \<and> without_comments prog = [Command CellValIncr 2, Command Cout 1]
     \<and> outcome (run 4 prog (initial [])) = Some obs
     \<and> (\<exists>m. outcome (run m (without_comments prog) (initial [])) = Some obs))"
proof -
  let ?prog = "[Command (CHR ''a'') 0, Command CellValIncr 2, Command (CHR ''b'') 0, Command Cout 1]"
  let ?obs = "Inr \<lparr>ptr = \<lparr>mem = [2], index = 0\<rparr>, cin = \<lparr>bytes = [], failed = False\<rparr>, cout = [2]\<rparr>"
  have r: "outcome (run 4 ?prog (initial [])) = Some ?obs"
    by (simp add: run_numeral run_eval outcome_def)
  then have "\<exists>n. outcome (run n ?prog (initial [])) = Some ?obs" ..
  with C10_comment_Commands_have_no_effect [of "Command (CHR ''a'') 0"
      "\<lparr>ptr = \<lparr>mem = [7], index = 0\<rparr>, cin = \<lparr>bytes = [9], failed = False\<rparr>, cout = [3]\<rparr>"
      "initial []" ?prog "[]" ?obs] r
  show ?thesis
    by (simp add: isCommand_def without_comments_def initial_def)
qed

end
